theory Spec2Isabelle
  imports Main
begin

section \<open>The event channel (class EventBus of protopal.ts)\<close>

text \<open>
  The class keeps its listeners in a JavaScript \<^verbatim>\<open>Set\<close>. A set remembers insertion
  order; \<^verbatim>\<open>add\<close> of a member is a no-op, \<^verbatim>\<open>delete\<close> leaves an empty slot behind,
  and \<^verbatim>\<open>forEach\<close> walks the slots by index, reading the number of slots again after
  every callback. The slots are modelled as a list of optional listener identities
  (\<open>None\<close> is an emptied slot). A listener is a function object; it is identified by a
  number, and what the function does when it is called is given by a table of scripts:
  the calls it makes on the channel that invoked it, in order, and whether it throws.
  The field \<open>deliveries\<close> is a ghost record of every listener invocation, oldest first.
\<close>

type_synonym lid = nat

record 'v bus =
  entries :: "lid option list"
  deliveries :: "(lid \<times> 'v) list"

datatype 'v call = Emit 'v | Subscribe lid | Unsubscribe lid | Throw

datatype completion = Returned | Threw

type_synonym 'v scripts = "lid \<Rightarrow> 'v \<Rightarrow> 'v call list"

definition new_bus :: "'v bus" where
  "new_bus = \<lparr>entries = [], deliveries = []\<rparr>"

definition add :: "lid \<Rightarrow> 'v bus \<Rightarrow> 'v bus" where
  "add l b = (if Some l \<in> set (entries b) then b else b\<lparr>entries := entries b @ [Some l]\<rparr>)"

definition delete :: "lid \<Rightarrow> 'v bus \<Rightarrow> 'v bus" where
  "delete l b = b\<lparr>entries := map (\<lambda>e. if e = Some l then None else e) (entries b)\<rparr>"

text \<open>
  \<^verbatim>\<open>subscribe(listener) { this.listeners.add(listener); return () => this.listeners.delete(listener); }\<close>
  The result is the channel after the call and the returned unsubscribe function.
\<close>

definition subscribe :: "lid \<Rightarrow> 'v bus \<Rightarrow> 'v bus \<times> ('v bus \<Rightarrow> 'v bus)" where
  "subscribe l b = (add l b, delete l)"

text \<open>The listeners a channel holds, in registration order.\<close>

fun live :: "lid option list \<Rightarrow> lid list" where
  "live [] = []"
| "live (None # es) = live es"
| "live (Some l # es) = l # live es"

text \<open>
  \<^verbatim>\<open>emit(value) { this.listeners.forEach((l) => l(value)); }\<close>
  \<open>forEach n H v i b\<close> is the loop of \<^verbatim>\<open>Set.prototype.forEach\<close> from slot \<open>i\<close> on, and
  \<open>call_listener\<close> runs the body of one listener. A listener may subscribe a new
  listener on every call, or emit again, so neither need return: \<open>n\<close> bounds the depth of
  the computation and \<open>None\<close> means the bound was reached. An exception thrown by a
  listener is not caught: it ends the loop and leaves \<open>emit\<close>.
\<close>

fun forEach :: "nat \<Rightarrow> 'v scripts \<Rightarrow> 'v \<Rightarrow> nat \<Rightarrow> 'v bus \<Rightarrow> (completion \<times> 'v bus) option"
  and call_listener :: "nat \<Rightarrow> 'v scripts \<Rightarrow> 'v call list \<Rightarrow> 'v bus \<Rightarrow> (completion \<times> 'v bus) option"
where
  "forEach 0 H v i b = None"
| "forEach (Suc n) H v i b =
     (if i < length (entries b) then
        (case entries b ! i of
           None \<Rightarrow> forEach n H v (Suc i) b
         | Some l \<Rightarrow>
             (case call_listener n H (H l v) (b\<lparr>deliveries := deliveries b @ [(l, v)]\<rparr>) of
                None \<Rightarrow> None
              | Some (Threw, b') \<Rightarrow> Some (Threw, b')
              | Some (Returned, b') \<Rightarrow> forEach n H v (Suc i) b'))
      else Some (Returned, b))"
| "call_listener 0 H cs b = None"
| "call_listener (Suc n) H [] b = Some (Returned, b)"
| "call_listener (Suc n) H (Throw # cs) b = Some (Threw, b)"
| "call_listener (Suc n) H (Subscribe l # cs) b = call_listener n H cs (fst (subscribe l b))"
| "call_listener (Suc n) H (Unsubscribe l # cs) b = call_listener n H cs (delete l b)"
| "call_listener (Suc n) H (Emit w # cs) b =
     (case forEach n H w 0 b of
        None \<Rightarrow> None
      | Some (Threw, b') \<Rightarrow> Some (Threw, b')
      | Some (Returned, b') \<Rightarrow> call_listener n H cs b')"

definition emit :: "nat \<Rightarrow> 'v scripts \<Rightarrow> 'v \<Rightarrow> 'v bus \<Rightarrow> (completion \<times> 'v bus) option" where
  "emit n H v b = forEach n H v 0 b"

text \<open>The listener invocations that one call of \<open>emit\<close> adds, in order.\<close>

definition invocations :: "nat \<Rightarrow> 'v scripts \<Rightarrow> 'v \<Rightarrow> 'v bus \<Rightarrow> (lid \<times> 'v) list option" where
  "invocations n H v b =
     (case emit n H v b of
        None \<Rightarrow> None
      | Some (r, b') \<Rightarrow> Some (drop (length (deliveries b)) (deliveries b')))"

section \<open>Commands, events, trace entries\<close>

text \<open>
  A thrown JavaScript value is an \<open>exn\<close>. A command is a tagged value; the runtime
  reads the tag as \<^verbatim>\<open>(command as any).type\<close>, which may be absent. What
  \<^verbatim>\<open>safeParse\<close> of the schema library returns is a success or a failure with an
  error object, of which the runtime reads \<^verbatim>\<open>format()\<close> and \<^verbatim>\<open>issues\<close>.
\<close>

datatype exn = Error string

record 'p command =
  ctype :: "string option"
  payload :: 'p

record ('f, 'i) zod_error =
  format :: 'f
  issues :: "'i list"

datatype ('f, 'i) safe_parse = Success | Failure "('f, 'i) zod_error"

text \<open>
  The values a unit's event channel carries: the events its \<open>decide\<close> returns, and the
  rejection event that \<open>dispatch\<close> builds itself (type \<^verbatim>\<open>'CommandValidationFailed'\<close>,
  payload \<open>command\<close>, \<open>errors\<close>, \<open>issues\<close>) and emits \<^verbatim>\<open>as TEvent\<close>.
\<close>

datatype ('e, 'f, 'i) published =
    Event 'e
  | CommandValidationFailed (vcommand: string) (verrors: 'f) (vissues: "'i list")

text \<open>The union \<open>TraceEntry\<close>; the field \<open>timestamp: Date.now()\<close> is left out.\<close>

datatype ('p, 'x, 'e, 'f, 'i, 's) trace_entry =
    TraceCommand "'p command" string
  | TraceContext "'p command" 'x
  | TraceEvent "('e, 'f, 'i) published" "'p command"
  | TraceEvolve 'e 's 's
  | TraceProjection string "('e, 'f, 'i) published"
  | TraceProcessManager string "('e, 'f, 'i) published" "'p command list"
  | TraceError string exn

section \<open>The state the runtime works on\<close>

text \<open>
  \<open>env\<close> is everything a listener of a unit's event channel can write: the state signal
  of a read model builder, the entries that reached the trace channel (oldest first), and
  the rest of the application (\<open>ext\<close>: stores of other listeners, other units).
  The trace channel is optional (\<^verbatim>\<open>trace?.emit(...)\<close>); when there is one, its listeners
  are recorders that keep the entry and return, as the ones the \<open>System\<close> constructor
  installs, so an emission on it is modelled by appending the entry to \<open>trace_log\<close>.
\<close>

record ('r, 't, 'z) env =
  read_value :: 'r
  trace_log :: "'t list"
  ext :: 'z

text \<open>
  A decision unit: \<open>state_value\<close> is \<^verbatim>\<open>state.value\<close>; \<open>history\<close> is a ghost record,
  oldest first, of what the unit did: called \<open>resolveContext\<close>, called \<open>decide\<close>, replaced
  the state by the evolution of an event, called \<^verbatim>\<open>events.emit\<close>.
\<close>

datatype ('p, 'e, 'f, 'i) obs =
    Resolved "'p command"
  | Decided "'p command"
  | Evolved 'e
  | Emitted "('e, 'f, 'i) published"

record ('s, 'o, 'w) decision_unit =
  state_value :: 's
  history :: "'o list"
  outside :: 'w

text \<open>
  A listener of a unit's event channel is called with the value; it can read the unit's
  state, it updates \<open>env\<close>, and it returns or throws (\<open>Some\<close>). What it wrote before it
  threw stays written. Listeners of this part do not call back into the channel that is
  delivering to them and do not assign the unit's state: the channel under such
  listeners is the subject of the first section.
\<close>

type_synonym ('v, 's, 'w) listener = "'v \<Rightarrow> 's \<Rightarrow> 'w \<Rightarrow> exn option \<times> 'w"

definition trace_emit :: "bool \<Rightarrow> 't \<Rightarrow> ('r, 't, 'z) env \<Rightarrow> ('r, 't, 'z) env" where
  "trace_emit tr x w = (if tr then w\<lparr>trace_log := trace_log w @ [x]\<rparr> else w)"

definition trace :: "bool \<Rightarrow> 't \<Rightarrow> ('s, 'o, ('r, 't, 'z) env) decision_unit \<Rightarrow> ('s, 'o, ('r, 't, 'z) env) decision_unit" where
  "trace tr x u = u\<lparr>outside := trace_emit tr x (outside u)\<rparr>"

text \<open>
  \<^verbatim>\<open>this.listeners.forEach((l) => l(value))\<close> over listeners that leave the set alone:
  they are called in registration order, and the first exception ends the delivery. The
  list is the channel's live set, each identity replaced by the function it names.
\<close>

definition listeners_of :: "(lid \<Rightarrow> 'a) \<Rightarrow> 'v bus \<Rightarrow> 'a list" where
  "listeners_of F b = map F (live (entries b))"

fun deliver :: "('v, 's, 'w) listener list \<Rightarrow> 'v \<Rightarrow> 's \<Rightarrow> 'w \<Rightarrow> exn option \<times> 'w" where
  "deliver [] v s w = (None, w)"
| "deliver (l # ls) v s w =
     (case l v s w of
        (Some err, w') \<Rightarrow> (Some err, w')
      | (None, w') \<Rightarrow> deliver ls v s w')"

definition events_emit ::
  "(('e, 'f, 'i) published, 's, 'w) listener list \<Rightarrow> ('e, 'f, 'i) published \<Rightarrow>
   ('s, ('p, 'e, 'f, 'i) obs, 'w) decision_unit \<Rightarrow> exn option \<times> ('s, ('p, 'e, 'f, 'i) obs, 'w) decision_unit" where
  "events_emit ls v u =
     (case deliver ls v (state_value u) (outside u) of
        (r, w') \<Rightarrow> (r, u\<lparr>history := history u @ [Emitted v], outside := w'\<rparr>))"

section \<open>The decision unit (createDecider)\<close>

text \<open>
  \<open>resolveContext\<close> throws, or returns a value or promise that \<open>dispatch\<close> awaits and
  that is fulfilled with a context or rejected.
\<close>

datatype 'x awaited = Throws exn | Fulfils 'x | Rejects exn

record ('p, 's, 'x, 'e, 'f, 'i) decider_config =
  name :: string
  initialState :: 's
  commandSchema :: "('p command \<Rightarrow> ('f, 'i) safe_parse) option"
  decide :: "'p command \<Rightarrow> 's \<Rightarrow> 'x \<Rightarrow> exn + 'e list"
  evolve :: "'s \<Rightarrow> 'e \<Rightarrow> exn + 's"
  resolveContext :: "'p command \<Rightarrow> 'x awaited"

type_synonym ('p, 's, 'x, 'e, 'f, 'i, 'r, 'z) dunit =
  "('s, ('p, 'e, 'f, 'i) obs, ('r, ('p, 'x, 'e, 'f, 'i, 's) trace_entry, 'z) env) decision_unit"

type_synonym ('p, 's, 'x, 'e, 'f, 'i, 'r, 'z) dlistener =
  "(('e, 'f, 'i) published, 's, ('r, ('p, 'x, 'e, 'f, 'i, 's) trace_entry, 'z) env) listener"

definition createDecider ::
  "('p, 's, 'x, 'e, 'f, 'i) decider_config \<Rightarrow> ('r, ('p, 'x, 'e, 'f, 'i, 's) trace_entry, 'z) env \<Rightarrow>
   ('p, 's, 'x, 'e, 'f, 'i, 'r, 'z) dunit" where
  "createDecider config w = \<lparr>state_value = initialState config, history = [], outside = w\<rparr>"

text \<open>\<^verbatim>\<open>config.commandSchema\<close> absent, or \<^verbatim>\<open>safeParse\<close> succeeds: \<open>None\<close>.\<close>

definition validate :: "('p, 's, 'x, 'e, 'f, 'i) decider_config \<Rightarrow> 'p command \<Rightarrow> ('f, 'i) zod_error option" where
  "validate config c =
     (case commandSchema config of
        None \<Rightarrow> None
      | Some schema \<Rightarrow> (case schema c of Success \<Rightarrow> None | Failure z \<Rightarrow> Some z))"

text \<open>\<^verbatim>\<open>(command as any).type || 'unknown'\<close>: an absent or empty tag is falsy.\<close>

definition command_tag :: "'p command \<Rightarrow> string" where
  "command_tag c = (case ctype c of None \<Rightarrow> ''unknown'' | Some t \<Rightarrow> if t = [] then ''unknown'' else t)"

definition validationEvent :: "'p command \<Rightarrow> ('f, 'i) zod_error \<Rightarrow> ('e, 'f, 'i) published" where
  "validationEvent c z = CommandValidationFailed (command_tag c) (format z) (issues z)"

text \<open>The \<^verbatim>\<open>catch (error)\<close> block of \<open>dispatch\<close>.\<close>

definition catch_error ::
  "bool \<Rightarrow> exn \<Rightarrow> ('p, 's, 'x, 'e, 'f, 'i, 'r, 'z) dunit \<Rightarrow> ('p, 's, 'x, 'e, 'f, 'i, 'r, 'z) dunit" where
  "catch_error tr err u = trace tr (TraceError ''decide'' err) u"

text \<open>
  The loop \<^verbatim>\<open>for (const event of emitted)\<close>: trace the event, evolve the state, trace the
  evolution, emit the event on the unit's channel. An exception of \<open>evolve\<close> or of a
  listener leaves the loop (\<open>Some\<close>).
\<close>

fun process_events ::
  "('p, 's, 'x, 'e, 'f, 'i) decider_config \<Rightarrow> bool \<Rightarrow> ('p, 's, 'x, 'e, 'f, 'i, 'r, 'z) dlistener list \<Rightarrow>
   'p command \<Rightarrow> 'e list \<Rightarrow> ('p, 's, 'x, 'e, 'f, 'i, 'r, 'z) dunit \<Rightarrow>
   exn option \<times> ('p, 's, 'x, 'e, 'f, 'i, 'r, 'z) dunit" where
  "process_events config tr ls c [] u = (None, u)"
| "process_events config tr ls c (e # es) u =
     (let u1 = trace tr (TraceEvent (Event e) c) u;
          before = state_value u1
      in case evolve config before e of
           Inl err \<Rightarrow> (Some err, u1)
         | Inr after \<Rightarrow>
             (let u2 = u1\<lparr>state_value := after, history := history u1 @ [Evolved e]\<rparr>;
                  u3 = trace tr (TraceEvolve e before (state_value u2)) u2
              in case events_emit ls (Event e) u3 of
                   (Some err, u4) \<Rightarrow> (Some err, u4)
                 | (None, u4) \<Rightarrow> process_events config tr ls c es u4))"

text \<open>
  \<open>dispatch\<close> is an async function with one \<^verbatim>\<open>await\<close>, on the result of
  \<open>resolveContext\<close>. \<open>dispatch_begin\<close> is the part that runs when \<open>dispatch\<close> is called: it
  ends the call (\<open>None\<close>) or suspends it, with the command and the way the awaited value
  settles. \<open>dispatch_resume\<close> is the part after the \<^verbatim>\<open>await\<close>; it runs later, on the
  state the unit has then, and reads \<^verbatim>\<open>state.value\<close> only then. What happens between the
  two parts is the subject of the next section. The promise that \<open>dispatch\<close> returns is not
  modelled: a call of an async function never throws into its caller, and the promise is
  rejected only when a listener of the trace channel throws (the trace emission on entry
  stands before the \<^verbatim>\<open>try\<close>, and nothing catches what the one in the \<^verbatim>\<open>catch\<close> block
  throws), which the recorders of this model do not.
\<close>

datatype ('p, 'x) suspended = Awaiting "'p command" "exn + 'x"

definition dispatch_begin ::
  "('p, 's, 'x, 'e, 'f, 'i) decider_config \<Rightarrow> bool \<Rightarrow> ('p, 's, 'x, 'e, 'f, 'i, 'r, 'z) dlistener list \<Rightarrow>
   'p command \<Rightarrow> string \<Rightarrow> ('p, 's, 'x, 'e, 'f, 'i, 'r, 'z) dunit \<Rightarrow>
   ('p, 'x) suspended option \<times> ('p, 's, 'x, 'e, 'f, 'i, 'r, 'z) dunit" where
  "dispatch_begin config tr ls c source u =
     (let u1 = trace tr (TraceCommand c source) u
      in case validate config c of
           Some z \<Rightarrow>
             (let u2 = trace tr (TraceEvent (validationEvent c z) c) u1
              in case events_emit ls (validationEvent c z) u2 of
                   (None, u3) \<Rightarrow> (None, u3)
                 | (Some err, u3) \<Rightarrow> (None, catch_error tr err u3))
         | None \<Rightarrow>
             (let u2 = u1\<lparr>history := history u1 @ [Resolved c]\<rparr>
              in case resolveContext config c of
                   Throws err \<Rightarrow> (None, catch_error tr err u2)
                 | Fulfils context \<Rightarrow> (Some (Awaiting c (Inr context)), u2)
                 | Rejects err \<Rightarrow> (Some (Awaiting c (Inl err)), u2)))"

fun dispatch_resume ::
  "('p, 's, 'x, 'e, 'f, 'i) decider_config \<Rightarrow> bool \<Rightarrow> ('p, 's, 'x, 'e, 'f, 'i, 'r, 'z) dlistener list \<Rightarrow>
   ('p, 'x) suspended \<Rightarrow> ('p, 's, 'x, 'e, 'f, 'i, 'r, 'z) dunit \<Rightarrow> ('p, 's, 'x, 'e, 'f, 'i, 'r, 'z) dunit" where
  "dispatch_resume config tr ls (Awaiting c (Inl err)) u = catch_error tr err u"
| "dispatch_resume config tr ls (Awaiting c (Inr context)) u =
     (let u1 = trace tr (TraceContext c context) u;
          u2 = u1\<lparr>history := history u1 @ [Decided c]\<rparr>
      in case decide config c (state_value u2) context of
           Inl err \<Rightarrow> catch_error tr err u2
         | Inr emitted \<Rightarrow>
             (case process_events config tr ls c emitted u2 of
                (None, u3) \<Rightarrow> u3
              | (Some err, u3) \<Rightarrow> catch_error tr err u3))"

text \<open>The state a unit reaches by evolving a list of events in order, if no evolution throws.\<close>

fun fold_evolve :: "('p, 's, 'x, 'e, 'f, 'i) decider_config \<Rightarrow> 's \<Rightarrow> 'e list \<Rightarrow> exn + 's" where
  "fold_evolve config s [] = Inr s"
| "fold_evolve config s (e # es) =
     (case evolve config s e of Inl err \<Rightarrow> Inl err | Inr s' \<Rightarrow> fold_evolve config s' es)"


section \<open>Concurrent calls of dispatch\<close>

text \<open>
  JavaScript runs one piece of code at a time: a call of \<open>dispatch\<close> runs up to its
  \<^verbatim>\<open>await\<close>, and its continuation runs later, when the awaited value has settled, in
  an order the runtime does not choose. A step is a call of \<open>dispatch\<close> by the
  application, or the continuation of the suspended call number \<open>i\<close> (the oldest is 0).
\<close>

datatype 'p step = Call "'p command" | Settle nat

fun run_step ::
  "('p, 's, 'x, 'e, 'f, 'i) decider_config \<Rightarrow> bool \<Rightarrow> ('p, 's, 'x, 'e, 'f, 'i, 'r, 'z) dlistener list \<Rightarrow>
   ('p, 's, 'x, 'e, 'f, 'i, 'r, 'z) dunit \<times> ('p, 'x) suspended list \<Rightarrow> 'p step \<Rightarrow>
   ('p, 's, 'x, 'e, 'f, 'i, 'r, 'z) dunit \<times> ('p, 'x) suspended list" where
  "run_step config tr ls (u, pending) (Call c) =
     (case dispatch_begin config tr ls c ''user'' u of
        (None, u') \<Rightarrow> (u', pending)
      | (Some k, u') \<Rightarrow> (u', pending @ [k]))"
| "run_step config tr ls (u, pending) (Settle i) =
     (if i < length pending
      then (dispatch_resume config tr ls (pending ! i) u, take i pending @ drop (Suc i) pending)
      else (u, pending))"

definition run ::
  "('p, 's, 'x, 'e, 'f, 'i) decider_config \<Rightarrow> bool \<Rightarrow> ('p, 's, 'x, 'e, 'f, 'i, 'r, 'z) dlistener list \<Rightarrow>
   'p step list \<Rightarrow> ('p, 's, 'x, 'e, 'f, 'i, 'r, 'z) dunit \<Rightarrow>
   ('p, 's, 'x, 'e, 'f, 'i, 'r, 'z) dunit \<times> ('p, 'x) suspended list" where
  "run config tr ls steps u = foldl (run_step config tr ls) (u, []) steps"

text \<open>What one command adds to the history when nothing throws: decide, then evolve and emit each event.\<close>

definition block :: "'p command \<Rightarrow> 'e list \<Rightarrow> ('p, 'e, 'f, 'i) obs list" where
  "block c es = Decided c # concat (map (\<lambda>e. [Evolved e, Emitted (Event e)]) es)"

section \<open>The read model builder (createProjector)\<close>

record ('r, 'v) projector_config =
  projector_name :: string
  projector_initialState :: 'r
  project :: "'r \<Rightarrow> 'v \<Rightarrow> exn + 'r"

text \<open>
  The listener that \<open>createProjector\<close> subscribes:
  \<^verbatim>\<open>try { state.value = config.project(state.value, event); trace?.emit(projection) }
  catch (error) { trace?.emit(error entry, phase 'project') }\<close>
\<close>

definition projector_listener ::
  "('r, ('e, 'f, 'i) published) projector_config \<Rightarrow> bool \<Rightarrow>
   (('e, 'f, 'i) published, 's, ('r, ('p, 'x, 'e, 'f, 'i, 's) trace_entry, 'z) env) listener" where
  "projector_listener config tr event s w =
     (case project config (read_value w) event of
        Inr r \<Rightarrow> (None, trace_emit tr (TraceProjection (projector_name config) event) (w\<lparr>read_value := r\<rparr>))
      | Inl err \<Rightarrow> (None, trace_emit tr (TraceError ''project'' err) w))"

text \<open>\<open>createProjector\<close>: a fresh state signal holding the initial state, and the listener subscribed last.\<close>

definition createProjector ::
  "('r, ('e, 'f, 'i) published) projector_config \<Rightarrow> ('p, 's, 'x, 'e, 'f, 'i, 'r, 'z) dlistener list \<Rightarrow> bool \<Rightarrow>
   ('r, ('p, 'x, 'e, 'f, 'i, 's) trace_entry, 'z) env \<Rightarrow>
   ('p, 's, 'x, 'e, 'f, 'i, 'r, 'z) dlistener list \<times> ('r, ('p, 'x, 'e, 'f, 'i, 's) trace_entry, 'z) env" where
  "createProjector config events tr w =
     (events @ [projector_listener config tr], w\<lparr>read_value := projector_initialState config\<rparr>)"

section \<open>The reaction unit (createProcessManager)\<close>






section \<open>Concrete channels and units\<close>

text \<open>Channels with one, two and three listeners; listeners that do nothing to the channel.\<close>

definition one_listener :: "nat bus" where
  "one_listener = fst (subscribe 1 new_bus)"

definition two_listeners :: "nat bus" where
  "two_listeners = fst (subscribe 2 (fst (subscribe 1 new_bus)))"

definition three_listeners :: "nat bus" where
  "three_listeners = fst (subscribe 3 (fst (subscribe 2 (fst (subscribe 1 new_bus)))))"

definition silent :: "nat scripts" where
  "silent l v = []"

text \<open>Listener 1 subscribes listener 2 when it is called.\<close>

definition subscriber_scripts :: "nat scripts" where
  "subscriber_scripts l v = (if l = 1 then [Subscribe 2] else [])"

text \<open>Listener 1 answers the value 0 by emitting the value 1 on the same channel.\<close>

definition reemitting_scripts :: "nat scripts" where
  "reemitting_scripts l v = (if l = 1 \<and> v = 0 then [Emit 1] else [])"

text \<open>Listener 2 answers the value 0 by emitting the value 1 on the same channel.\<close>

definition middle_reemits :: "nat scripts" where
  "middle_reemits l v = (if l = 2 \<and> v = 0 then [Emit 1] else [])"

text \<open>
  A unit whose state is the list of the events it has evolved. Its schema rejects payloads
  above 100; \<open>resolveContext\<close> throws on payload 0; \<open>decide\<close> throws on payload 50 and
  otherwise returns two events; \<open>evolve\<close> throws on the event 13. A listener that records
  what it is given, and one that throws when it is given the event 1.
\<close>

type_synonym log_unit = "(nat, nat list, unit, nat, string, string, nat, ((nat, string, string) published \<times> nat list) list) dunit"

type_synonym log_listener = "(nat, nat list, unit, nat, string, string, nat, ((nat, string, string) published \<times> nat list) list) dlistener"

definition log_config :: "(nat, nat list, unit, nat, string, string) decider_config" where
  "log_config =
     \<lparr>name = ''log'', initialState = [],
      commandSchema = Some (\<lambda>c. if 100 < payload c
                                  then Failure \<lparr>format = ''too large'', issues = [''payload'']\<rparr>
                                  else Success),
      decide = (\<lambda>c s x. if payload c = 50 then Inl (Error ''undecided'') else Inr [payload c, Suc (payload c)]),
      evolve = (\<lambda>s e. if e = 13 then Inl (Error ''unlucky'') else Inr (s @ [e])),
      resolveContext = (\<lambda>c. if payload c = 0 then Throws (Error ''no context'') else Fulfils ())\<rparr>"

definition add_command :: "nat \<Rightarrow> nat command" where
  "add_command n = \<lparr>ctype = Some ''Add'', payload = n\<rparr>"


definition recorder :: log_listener where
  "recorder v s w = (None, w\<lparr>ext := ext w @ [(v, s)]\<rparr>)"


definition fresh :: log_unit where
  "fresh = createDecider log_config \<lparr>read_value = 0, trace_log = [], ext = []\<rparr>"










text \<open>
  Listener 1 throws. Listener 1 unsubscribes listener 2 and subscribes it again. A channel
  on which listener 2 was subscribed twice and listener 1 after it.
\<close>

definition throwing_scripts :: "nat scripts" where
  "throwing_scripts l v = (if l = 1 then [Throw] else [])"

definition resubscribing_scripts :: "nat scripts" where
  "resubscribing_scripts l v = (if l = 1 then [Unsubscribe 2, Subscribe 2] else [])"

definition twice_then_one :: "nat bus" where
  "twice_then_one = fst (subscribe 1 (fst (subscribe 2 (fst (subscribe 2 new_bus)))))"

section \<open>Properties of the event channel\<close>

lemma live_append: "live (xs @ ys) = live xs @ live ys"
  by (induction xs rule: live.induct) auto

lemma live_map_Some: "live (map Some ls) = ls"
  by (induction ls) auto

lemma entries_add:
  "entries (add k b) = (if Some k \<in> set (entries b) then entries b else entries b @ [Some k])"
  by (simp add: add_def)

lemma deliveries_add: "deliveries (add k b) = deliveries b"
  by (simp add: add_def)

lemma slots_add:
  assumes "k \<in> set S"
  shows "length (entries (add k b)) + card (set S - {j. Some j \<in> set (entries (add k b))}) =
         length (entries b) + card (set S - {j. Some j \<in> set (entries b)})"
proof (cases "Some k \<in> set (entries b)")
  case True
  then show ?thesis by (simp add: entries_add)
next
  case False
  let ?P = "{j. Some j \<in> set (entries b)}"
  have eq: "{j. Some j \<in> set (entries (add k b))} = insert k ?P"
    using False by (auto simp: entries_add)
  have len: "length (entries (add k b)) = Suc (length (entries b))"
    using False by (simp add: entries_add)
  have in_diff: "k \<in> set S - ?P" using assms False by simp
  have "set S - insert k ?P = (set S - ?P) - {k}" by auto
  then have c: "card (set S - insert k ?P) = card (set S - ?P) - 1"
    using in_diff by (simp add: card_Diff_singleton)
  have "card (set S - ?P) \<ge> 1"
    using in_diff by (metis One_nat_def Suc_leI card_gt_0_iff empty_iff finite_Diff finite_set)
  with c show ?thesis unfolding eq len by arith
qed

lemma call_listener_subscribes:
  assumes "\<forall>c\<in>set cs. \<exists>k. c = Subscribe k \<and> k \<in> set S" and "length cs < n"
  shows "\<exists>b'. call_listener n H cs b = Some (Returned, b') \<and> deliveries b' = deliveries b \<and>
           (\<exists>new. entries b' = entries b @ map Some new \<and> set new \<subseteq> set S) \<and>
           length (entries b') + card (set S - {j. Some j \<in> set (entries b')}) =
           length (entries b) + card (set S - {j. Some j \<in> set (entries b)})"
  using assms
proof (induction cs arbitrary: n b)
  case Nil
  then obtain m where "n = Suc m" by (cases n) auto
  then show ?case by auto
next
  case (Cons c cs)
  from Cons.prems obtain k where c: "c = Subscribe k" and k: "k \<in> set S" by auto
  from Cons.prems obtain m where n: "n = Suc m" and m: "length cs < m" by (cases n) auto
  from Cons.prems have rest: "\<forall>c\<in>set cs. \<exists>k. c = Subscribe k \<and> k \<in> set S" by simp
  from Cons.IH[OF rest m, of "add k b"] obtain b' new where
    r: "call_listener m H cs (add k b) = Some (Returned, b')" and
    d: "deliveries b' = deliveries (add k b)" and
    e: "entries b' = entries (add k b) @ map Some new" "set new \<subseteq> set S" and
    s: "length (entries b') + card (set S - {j. Some j \<in> set (entries b')}) =
        length (entries (add k b)) + card (set S - {j. Some j \<in> set (entries (add k b))})"
    by blast
  have "\<exists>new'. entries b' = entries b @ map Some new' \<and> set new' \<subseteq> set S"
  proof (cases "Some k \<in> set (entries b)")
    case True
    with e show ?thesis by (auto simp: entries_add)
  next
    case False
    with e k have "entries b' = entries b @ map Some (k # new) \<and> set (k # new) \<subseteq> set S"
      by (simp add: entries_add)
    then show ?thesis by blast
  qed
  with r d s slots_add[OF k, of b] show ?case
    by (simp add: c n subscribe_def deliveries_add)
qed

lemma forEach_subscribing:
  assumes A: "\<forall>l. \<forall>c\<in>set (H l v). \<exists>k. c = Subscribe k \<and> k \<in> set S"
    and B: "\<forall>l. length (H l v) \<le> m"
  shows "length (entries b) + card (set S - {j. Some j \<in> set (entries b)}) - i + m < n \<Longrightarrow>
    \<exists>b'. forEach n H v i b = Some (Returned, b') \<and>
      deliveries b' = deliveries b @ map (\<lambda>l. (l, v)) (live (drop i (entries b'))) \<and>
      (\<exists>new. entries b' = entries b @ map Some new \<and> set new \<subseteq> set S)"
proof (induction n arbitrary: i b)
  case 0
  then show ?case by simp
next
  case (Suc n)
  let ?L = "\<lambda>b. length (entries b) + card (set S - {j. Some j \<in> set (entries b)})"
  show ?case
  proof (cases "i < length (entries b)")
    case False
    then have "forEach (Suc n) H v i b = Some (Returned, b)" by simp
    moreover have "entries b = entries b @ map Some [] \<and> set [] \<subseteq> set S" by simp
    ultimately show ?thesis using False by (metis append_Nil2 drop_all list.simps(8) live.simps(1) not_less)
  next
    case True
    then have fuel: "?L b - Suc i + m < n" using Suc.prems by arith
    show ?thesis
    proof (cases "entries b ! i")
      case None
      from Suc.IH[OF fuel] obtain b' new where
        r: "forEach n H v (Suc i) b = Some (Returned, b')" and
        d: "deliveries b' = deliveries b @ map (\<lambda>l. (l, v)) (live (drop (Suc i) (entries b')))" and
        e: "entries b' = entries b @ map Some new" "set new \<subseteq> set S" by blast
      have "entries b' ! i = None" using e True None by (simp add: nth_append)
      moreover have "i < length (entries b')" using e True by simp
      ultimately have "live (drop i (entries b')) = live (drop (Suc i) (entries b'))"
        by (metis Cons_nth_drop_Suc live.simps(2))
      with r d e True None show ?thesis by auto
    next
      case (Some l)
      let ?b = "b\<lparr>deliveries := deliveries b @ [(l, v)]\<rparr>"
      have len: "length (H l v) < n" using B fuel True
        by (metis add_lessD1 le_add2 le_trans less_le_trans not_less)
      from call_listener_subscribes[of "H l v" S n H ?b] A len obtain b1 new1 where
        c: "call_listener n H (H l v) ?b = Some (Returned, b1)" and
        d1: "deliveries b1 = deliveries b @ [(l, v)]" and
        e1: "entries b1 = entries b @ map Some new1" "set new1 \<subseteq> set S" and
        s1: "?L b1 = ?L b" by auto
      have "?L b1 - Suc i + m < n" using fuel s1 by simp
      from Suc.IH[OF this] obtain b' new where
        r: "forEach n H v (Suc i) b1 = Some (Returned, b')" and
        d: "deliveries b' = deliveries b1 @ map (\<lambda>l. (l, v)) (live (drop (Suc i) (entries b')))" and
        e: "entries b' = entries b1 @ map Some new" "set new \<subseteq> set S" by blast
      have "entries b' ! i = Some l" using e e1 True Some by (simp add: nth_append)
      moreover have "i < length (entries b')" using e e1 True by simp
      ultimately have lv: "live (drop i (entries b')) = l # live (drop (Suc i) (entries b'))"
        by (metis Cons_nth_drop_Suc live.simps(3))
      have "entries b' = entries b @ map Some (new1 @ new) \<and> set (new1 @ new) \<subseteq> set S"
        using e e1 by simp
      then have "\<exists>new'. entries b' = entries b @ map Some new' \<and> set new' \<subseteq> set S" by blast
      with c r d d1 lv True Some show ?thesis by simp
    qed
  qed
qed

lemma forEach_quiet:
  "\<forall>x\<in>set (live (drop i (entries b))). H x v = [] \<Longrightarrow> length (entries b) - i < n \<Longrightarrow>
    forEach n H v i b =
      Some (Returned, b\<lparr>deliveries := deliveries b @ map (\<lambda>l. (l, v)) (live (drop i (entries b)))\<rparr>)"
proof (induction n arbitrary: i b)
  case 0
  then show ?case by simp
next
  case (Suc n)
  show ?case
  proof (cases "i < length (entries b)")
    case False
    then show ?thesis by simp
  next
    case True
    then have dr: "drop i (entries b) = entries b ! i # drop (Suc i) (entries b)"
      by (simp add: Cons_nth_drop_Suc)
    from True Suc.prems have n: "length (entries b) - Suc i < n" by arith
    then obtain m where m: "n = Suc m" by (cases n) auto
    show ?thesis
    proof (cases "entries b ! i")
      case None
      with Suc.prems dr have "\<forall>x\<in>set (live (drop (Suc i) (entries b))). H x v = []" by simp
      from Suc.IH[OF this n] True dr None show ?thesis by simp
    next
      case (Some l)
      let ?b = "b\<lparr>deliveries := deliveries b @ [(l, v)]\<rparr>"
      from Suc.prems dr Some have q: "\<forall>x\<in>set (live (drop (Suc i) (entries ?b))). H x v = []"
        and l: "H l v = []" by simp_all
      have "length (entries ?b) - Suc i < n" using n by simp
      from Suc.IH[OF q this] True dr Some l m show ?thesis by simp
    qed
  qed
qed

lemma forEach_prefix:
  "take (length seg) (drop i (entries b)) = map Some seg \<Longrightarrow> \<forall>x\<in>set seg. H x v = [] \<Longrightarrow>
   length seg < n \<Longrightarrow>
   forEach n H v i b =
     forEach (n - length seg) H v (i + length seg) (b\<lparr>deliveries := deliveries b @ map (\<lambda>x. (x, v)) seg\<rparr>)"
proof (induction seg arbitrary: i b n)
  case Nil
  then show ?case by simp
next
  case (Cons x seg)
  from Cons.prems(3) obtain n' where n: "n = Suc n'" and n': "length seg < n'" by (cases n) auto
  then obtain n'' where n'': "n' = Suc n''" by (cases n') auto
  from Cons.prems(1) have i: "i < length (entries b)"
    by (metis drop_all length_greater_0_conv list.distinct(1) list.map_disc_iff not_less take_eq_Nil length_Cons zero_less_Suc)
  then have dr: "drop i (entries b) = entries b ! i # drop (Suc i) (entries b)"
    by (simp add: Cons_nth_drop_Suc)
  with Cons.prems(1) have x: "entries b ! i = Some x"
    and rest: "take (length seg) (drop (Suc i) (entries b)) = map Some seg" by simp_all
  let ?b = "b\<lparr>deliveries := deliveries b @ [(x, v)]\<rparr>"
  from Cons.prems(2) have hx: "H x v = []" and hs: "\<forall>x\<in>set seg. H x v = []" by simp_all
  have "take (length seg) (drop (Suc i) (entries ?b)) = map Some seg" using rest by simp
  from Cons.IH[OF this hs n'] i x hx n n'' show ?case by simp
qed

text \<open>
  C6 (amended). \<open>emit\<close> walks the live set of listeners, not a snapshot of it. When the
  listeners called with \<open>v\<close> neither throw nor unsubscribe nor emit, and subscribe only
  listeners among finitely many (\<open>S\<close>), the emission returns, and it has invoked, each
  once and in registration order, every listener registered when it started and after
  them every listener registered while it ran.
\<close>

theorem emit_walks_live_set:
  assumes "\<forall>l. \<forall>c\<in>set (H l v). \<exists>k. c = Subscribe k \<and> k \<in> set S"
    and "\<forall>l. length (H l v) \<le> m"
    and "length (entries b) + length S + m < n"
  shows "\<exists>b' new. emit n H v b = Some (Returned, b') \<and>
    entries b' = entries b @ map Some new \<and> set new \<subseteq> set S \<and>
    deliveries b' = deliveries b @ map (\<lambda>l. (l, v)) (live (entries b) @ new)"
proof -
  have "card (set S - {j. Some j \<in> set (entries b)}) \<le> length S"
    by (meson Diff_subset List.finite_set card_length card_mono le_trans)
  with assms(3)
  have "length (entries b) + card (set S - {j. Some j \<in> set (entries b)}) - 0 + m < n" by arith
  from forEach_subscribing[where H = H and v = v and S = S and m = m, OF assms(1) assms(2) this]
  obtain b' new where r: "forEach n H v 0 b = Some (Returned, b')"
    and d: "deliveries b' = deliveries b @ map (\<lambda>l. (l, v)) (live (drop 0 (entries b')))"
    and e: "entries b' = entries b @ map Some new" "set new \<subseteq> set S" by blast
  have "live (entries b') = live (entries b) @ new" using e by (simp add: live_append live_map_Some)
  with r d e show ?thesis by (auto simp: emit_def)
qed

theorem emit_walks_live_set_witness:
  "\<exists>b' new. emit 4 subscriber_scripts 7 one_listener = Some (Returned, b') \<and>
     entries b' = entries one_listener @ map Some new \<and> set new \<subseteq> set [2] \<and>
     deliveries b' = deliveries one_listener @ map (\<lambda>l. (l, 7)) (live (entries one_listener) @ new)"
  using emit_walks_live_set[of subscriber_scripts 7 "[2]" 1 one_listener 4]
  by (simp add: subscriber_scripts_def one_listener_def subscribe_def add_def new_bus_def)

text \<open>
  C6 as stated fails: listener 2 is not registered when the emission of 7 starts,
  listener 1 registers it during the emission, and listener 2 is called with 7.
\<close>

theorem emit_is_not_a_snapshot:
  "Some 2 \<notin> set (entries one_listener) \<and>
   emit 4 subscriber_scripts 7 one_listener =
     Some (Returned, \<lparr>entries = [Some 1, Some 2], deliveries = [(1, 7), (2, 7)]\<rparr>)"
  by code_simp

text \<open>
  C7 (amended). \<open>emit\<close> is synchronous and re-entrant, with no queue: when a listener
  \<open>l\<close> called with \<open>v\<close> emits \<open>w\<close> on the same channel, \<open>w\<close> is delivered to all listeners
  at once, inside the call of \<open>l\<close>, and the delivery of \<open>v\<close> to the listeners after \<open>l\<close>
  resumes when the nested emission has returned.
\<close>

theorem nested_emit_runs_inside:
  assumes e: "entries b = map Some (pre @ l # post)"
    and d: "distinct (pre @ l # post)"
    and l: "H l v = [Emit w]"
    and others: "\<forall>x. x \<noteq> l \<longrightarrow> H x v = []"
    and inner: "\<forall>x. H x w = []"
    and fuel: "2 * length (entries b) + 1 < n"
  shows "emit n H v b =
    Some (Returned, b\<lparr>deliveries := deliveries b @ map (\<lambda>x. (x, v)) (pre @ [l]) @
       map (\<lambda>x. (x, w)) (pre @ l # post) @ map (\<lambda>x. (x, v)) post\<rparr>)"
proof -
  let ?k = "length pre"
  let ?b0 = "b\<lparr>deliveries := deliveries b @ map (\<lambda>x. (x, v)) pre\<rparr>"
  let ?b1 = "b\<lparr>deliveries := deliveries b @ map (\<lambda>x. (x, v)) (pre @ [l])\<rparr>"
  let ?b2 = "b\<lparr>deliveries := deliveries b @ map (\<lambda>x. (x, v)) (pre @ [l]) @ map (\<lambda>x. (x, w)) (pre @ l # post)\<rparr>"
  have len: "length (entries b) = Suc (?k + length post)" using e by simp
  have lv: "live (entries b) = pre @ l # post" unfolding e by (rule live_map_Some)
  have "drop (Suc ?k) (entries b) = map Some post" using e by simp
  then have lv_post: "live (drop (Suc ?k) (entries b)) = post" by (simp add: live_map_Some)
  have pre_quiet: "\<forall>x\<in>set pre. H x v = []" using d others by auto
  have post_quiet: "\<forall>x\<in>set post. H x v = []" using d others by auto
  have "take (length pre) (drop 0 (entries b)) = map Some pre" using e by simp
  with forEach_prefix[where H = H and v = v and seg = pre and i = 0 and b = b and n = n]
    pre_quiet fuel len
  have s1: "forEach n H v 0 b = forEach (n - ?k) H v ?k ?b0" by simp
  define n3 where "n3 = n - ?k - 2"
  have n3: "n - ?k = Suc (Suc n3)" and f3: "length (entries b) < n3"
    using fuel len unfolding n3_def by arith+
  have at: "entries ?b0 ! ?k = Some l" "?k < length (entries ?b0)" using e by (simp_all add: nth_append)
  have q_in: "\<forall>x\<in>set (live (drop 0 (entries ?b1))). H x w = []" using inner by simp
  have in_run: "forEach n3 H w 0 ?b1 = Some (Returned, ?b2)"
    using forEach_quiet[where H = H and v = w and i = 0 and b = ?b1 and n = n3] q_in f3 lv
    by simp
  obtain n4 where n4: "n3 = Suc n4" using f3 by (cases n3) auto
  have q_post: "\<forall>x\<in>set (live (drop (Suc ?k) (entries ?b2))). H x v = []"
    using lv_post post_quiet by simp
  have "length (entries ?b2) - Suc ?k < Suc n3" using f3 by simp
  with forEach_quiet[where H = H and v = v and i = "Suc ?k" and b = ?b2 and n = "Suc n3"] q_post
  have out_run: "forEach (Suc n3) H v (Suc ?k) ?b2 =
     Some (Returned, ?b2\<lparr>deliveries := deliveries ?b2 @ map (\<lambda>x. (x, v)) post\<rparr>)"
    using lv_post by simp
  have "forEach (Suc (Suc n3)) H v ?k ?b0 = Some (Returned, ?b2\<lparr>deliveries := deliveries ?b2 @ map (\<lambda>x. (x, v)) post\<rparr>)"
    using at l in_run out_run n4 by simp
  with s1 n3 show ?thesis by (simp add: emit_def)
qed


theorem nested_emit_runs_inside_witness:
  "emit 8 middle_reemits 0 three_listeners =
     Some (Returned, three_listeners\<lparr>deliveries := deliveries three_listeners @
       map (\<lambda>x. (x, 0)) ([1] @ [2]) @ map (\<lambda>x. (x, 1)) ([1] @ 2 # [3]) @ map (\<lambda>x. (x, 0)) [3]\<rparr>)"
  using nested_emit_runs_inside[of three_listeners "[1]" 2 "[3]" middle_reemits 0 1 8]
  by (simp add: middle_reemits_def three_listeners_def subscribe_def add_def new_bus_def)

text \<open>
  C7 as stated fails: listener 1 answers 0 by emitting 1; both listeners receive 1 before
  listener 2 receives 0, so the deliveries of the two values are interleaved.
\<close>

theorem nested_emit_interleaves:
  "emit 6 reemitting_scripts 0 two_listeners =
     Some (Returned, \<lparr>entries = [Some 1, Some 2], deliveries = [(1, 0), (1, 1), (2, 1), (2, 0)]\<rparr>)"
  by code_simp

lemma invocations_quiet:
  assumes "\<forall>x. H x v = []" and "length (entries b) < n"
  shows "invocations n H v b = Some (map (\<lambda>l. (l, v)) (live (entries b)))"
  using forEach_quiet[where H = H and v = v and i = 0 and b = b and n = n] assms
  by (simp add: invocations_def emit_def)

lemma mem_live: "l \<in> set (live es) \<longleftrightarrow> Some l \<in> set es"
  by (induction es rule: live.induct) auto

lemma live_add:
  "live (entries (add l b)) = (if l \<in> set (live (entries b)) then live (entries b) else live (entries b) @ [l])"
  by (simp add: add_def mem_live live_append)

lemma live_delete: "live (entries (delete l b)) = filter (\<lambda>x. x \<noteq> l) (live (entries b))"
proof -
  have "live (map (\<lambda>e. if e = Some l then None else e) es) = filter (\<lambda>x. x \<noteq> l) (live es)" for es
    by (induction es rule: live.induct) auto
  then show ?thesis by (simp add: delete_def)
qed

lemma length_entries_delete: "length (entries (delete l b)) = length (entries b)"
  by (simp add: delete_def)

lemma count_list_distinct: "distinct xs \<Longrightarrow> x \<in> set xs \<Longrightarrow> count_list xs x = 1"
  by (induction xs) auto

lemma count_list_pairs: "count_list (map (\<lambda>l. (l, v)) xs) (x, v) = count_list xs x"
  by (induction xs) auto

lemma add_add: "add l (add l b) = add l b"
  by (simp add: add_def)

text \<open>The listeners of a channel are a set: no identity is registered twice.\<close>

lemma distinct_new_bus: "distinct (live (entries new_bus))"
  by (simp add: new_bus_def)

lemma distinct_add: "distinct (live (entries b)) \<Longrightarrow> distinct (live (entries (add l b)))"
  by (simp add: live_add)

lemma distinct_delete: "distinct (live (entries b)) \<Longrightarrow> distinct (live (entries (delete l b)))"
  by (simp add: live_delete)

lemma listeners_of_subscribe:
  "l \<notin> set (live (entries b)) \<Longrightarrow> listeners_of F (fst (subscribe l b)) = listeners_of F b @ [F l]"
  by (simp add: listeners_of_def subscribe_def live_add)

text \<open>
  C10 (amended). Subscribing a listener that is already subscribed changes nothing, since
  the listeners are a set: a later emission to listeners that return without throwing and
  without calling back into the channel invokes it exactly once, and the unsubscribe
  function returned by either call removes it, so that such emissions do not invoke it.
\<close>

theorem subscribe_twice:
  assumes sub1: "subscribe f b = (b1, unsubscribe1)"
    and sub2: "subscribe f b1 = (b2, unsubscribe2)"
    and wf: "distinct (live (entries b))"
    and quiet: "\<forall>x. H x v = []"
    and fuel: "Suc (length (entries b)) < n"
  shows "b2 = b1 \<and>
    (\<exists>ds. invocations n H v b2 = Some ds \<and> count_list ds (f, v) = 1) \<and>
    f \<notin> set (live (entries (unsubscribe1 b2))) \<and>
    (\<exists>ds. invocations n H v (unsubscribe1 b2) = Some ds \<and> count_list ds (f, v) = 0) \<and>
    f \<notin> set (live (entries (unsubscribe2 b2))) \<and>
    (\<exists>ds. invocations n H v (unsubscribe2 b2) = Some ds \<and> count_list ds (f, v) = 0)"
proof -
  from sub1 have b1: "b1 = add f b" and u1: "unsubscribe1 = delete f" by (simp_all add: subscribe_def)
  from sub2 have b2: "b2 = add f b1" and u2: "unsubscribe2 = delete f" by (simp_all add: subscribe_def)
  have same: "b2 = b1" by (simp add: b1 b2 add_add)
  have len: "length (entries b1) < n" using fuel by (simp add: b1 add_def)
  have d1: "distinct (live (entries b1))" using wf by (simp add: b1 live_add)
  have m1: "f \<in> set (live (entries b1))" by (simp add: b1 live_add)
  have once: "count_list (map (\<lambda>l. (l, v)) (live (entries b1))) (f, v) = 1"
    using d1 m1 by (simp add: count_list_pairs count_list_distinct)
  have removed: "f \<notin> set (live (entries (delete f b1)))" by (simp add: live_delete)
  have gone: "count_list (map (\<lambda>l. (l, v)) (live (entries (delete f b1)))) (f, v) = 0"
    by (simp add: count_list_pairs live_delete)
  have len': "length (entries (delete f b1)) < n" using len by (simp add: length_entries_delete)
  show ?thesis
    using same once gone removed quiet
      invocations_quiet[where H = H and v = v and b = b1 and n = n, OF _ len]
      invocations_quiet[where H = H and v = v and b = "delete f b1" and n = n, OF _ len']
    by (simp add: u1 u2)
qed

theorem subscribe_twice_witness:
  "fst (subscribe 2 (fst (subscribe 2 one_listener))) = fst (subscribe 2 one_listener) \<and>
   (\<exists>ds. invocations 4 silent 7 (fst (subscribe 2 (fst (subscribe 2 one_listener)))) = Some ds \<and>
      count_list ds (2, 7) = 1) \<and>
   (\<exists>ds. invocations 4 silent 7
      (snd (subscribe 2 one_listener) (fst (subscribe 2 (fst (subscribe 2 one_listener))))) = Some ds \<and>
      count_list ds (2, 7) = 0) \<and>
   (\<exists>ds. invocations 4 silent 7
      (snd (subscribe 2 (fst (subscribe 2 one_listener))) (fst (subscribe 2 (fst (subscribe 2 one_listener))))) = Some ds \<and>
      count_list ds (2, 7) = 0)"
proof -
  have s1: "subscribe 2 one_listener = (fst (subscribe 2 one_listener), snd (subscribe 2 one_listener))"
    by simp
  have s2: "subscribe 2 (fst (subscribe 2 one_listener)) =
      (fst (subscribe 2 (fst (subscribe 2 one_listener))), snd (subscribe 2 (fst (subscribe 2 one_listener))))"
    by simp
  have wf: "distinct (live (entries one_listener))"
    by (simp add: one_listener_def subscribe_def add_def new_bus_def)
  have q: "\<forall>x. silent x (7::nat) = []" by (simp add: silent_def)
  have n: "Suc (length (entries one_listener)) < 4"
    by (simp add: one_listener_def subscribe_def add_def new_bus_def)
  from subscribe_twice[OF s1 s2 wf, where H = silent and v = 7 and n = 4, OF q n]
  show ?thesis by blast
qed

text \<open>
  C10 as stated fails: a later emission does not invoke the listener at all when a
  listener subscribed before it throws, and invokes it twice when a listener subscribed
  after it unsubscribes it and subscribes it again during the emission.
\<close>

theorem emit_invokes_twice_or_never:
  "fst (subscribe 2 (fst (subscribe 2 one_listener))) = fst (subscribe 2 one_listener) \<and>
   invocations 4 throwing_scripts 7 (fst (subscribe 2 (fst (subscribe 2 one_listener)))) = Some [(1, 7)] \<and>
   count_list [(1 :: nat, 7 :: nat)] (2, 7) = 0 \<and>
   live (entries twice_then_one) = [2, 1] \<and>
   invocations 9 resubscribing_scripts 7 twice_then_one = Some [(2, 7), (1, 7), (2, 7)] \<and>
   count_list [(2 :: nat, 7 :: nat), (1, 7), (2, 7)] (2, 7) = 2"
  by code_simp

section \<open>Properties of the decision unit\<close>

lemma state_value_trace [simp]: "state_value (trace tr x u) = state_value u"
  by (simp add: trace_def)

lemma history_trace [simp]: "history (trace tr x u) = history u"
  by (simp add: trace_def)

lemma outside_trace [simp]: "outside (trace tr x u) = trace_emit tr x (outside u)"
  by (simp add: trace_def)


lemma state_value_catch [simp]: "state_value (catch_error tr err u) = state_value u"
  by (simp add: catch_error_def)

lemma history_catch [simp]: "history (catch_error tr err u) = history u"
  by (simp add: catch_error_def)

lemma outside_catch [simp]:
  "outside (catch_error tr err u) = trace_emit tr (TraceError ''decide'' err) (outside u)"
  by (simp add: catch_error_def)

lemma events_emit_frame:
  "state_value (snd (events_emit ls v u)) = state_value u \<and>
   history (snd (events_emit ls v u)) = history u @ [Emitted v] \<and>
   fst (events_emit ls v u) = fst (deliver ls v (state_value u) (outside u)) \<and>
   outside (snd (events_emit ls v u)) = snd (deliver ls v (state_value u) (outside u))"
  by (simp add: events_emit_def split: prod.splits)

lemma process_events_ok:
  "fold_evolve config (state_value u) es = Inr s' \<Longrightarrow>
   \<forall>e\<in>set es. \<forall>s w. fst (deliver ls (Event e) s w) = None \<Longrightarrow>
   \<exists>u'. process_events config tr ls c es u = (None, u') \<and> state_value u' = s' \<and>
     history u' = history u @ concat (map (\<lambda>e. [Evolved e, Emitted (Event e)]) es)"
proof (induction es arbitrary: u)
  case Nil
  then show ?case by simp
next
  case (Cons e es)
  from Cons.prems(1) obtain s1 where ev: "evolve config (state_value u) e = Inr s1"
    and rest: "fold_evolve config s1 es = Inr s'"
    by (auto split: sum.splits)
  let ?u1 = "trace tr (TraceEvent (Event e) c) u"
  let ?u2 = "?u1\<lparr>state_value := s1, history := history ?u1 @ [Evolved e]\<rparr>"
  let ?u3 = "trace tr (TraceEvolve e (state_value u) s1) ?u2"
  obtain r u4 where em: "events_emit ls (Event e) ?u3 = (r, u4)" by (cases "events_emit ls (Event e) ?u3")
  from events_emit_frame[of ls "Event e" ?u3] em Cons.prems(2)
  have r: "r = None" and s4: "state_value u4 = s1"
    and h4: "history u4 = history u @ [Evolved e, Emitted (Event e)]" by simp_all
  from rest s4 have "fold_evolve config (state_value u4) es = Inr s'" by simp
  from Cons.IH[OF this] Cons.prems(2) obtain u' where
    "process_events config tr ls c es u4 = (None, u')" "state_value u' = s'"
    "history u' = history u4 @ concat (map (\<lambda>e. [Evolved e, Emitted (Event e)]) es)" by auto
  with ev em r h4 show ?case by (simp add: Let_def)
qed

lemma dispatch_resume_ok:
  assumes "decide config c (state_value u) context = Inr es"
    and "fold_evolve config (state_value u) es = Inr s'"
    and "\<forall>e\<in>set es. \<forall>s w. fst (deliver ls (Event e) s w) = None"
  shows "state_value (dispatch_resume config tr ls (Awaiting c (Inr context)) u) = s' \<and>
    history (dispatch_resume config tr ls (Awaiting c (Inr context)) u) = history u @ block c es"
proof -
  let ?u1 = "trace tr (TraceContext c context) u"
  let ?u2 = "?u1\<lparr>history := history ?u1 @ [Decided c]\<rparr>"
  have "fold_evolve config (state_value ?u2) es = Inr s'" using assms(2) by simp
  from process_events_ok[OF this assms(3), of tr c] obtain u' where
    "process_events config tr ls c es ?u2 = (None, u')" "state_value u' = s'"
    "history u' = history ?u2 @ concat (map (\<lambda>e. [Evolved e, Emitted (Event e)]) es)" by blast
  with assms(1) show ?thesis by (simp add: Let_def block_def)
qed

lemma dispatch_begin_valid:
  assumes "validate config c = None" and "resolveContext config c = Fulfils context"
  shows "dispatch_begin config tr ls c source u =
    (Some (Awaiting c (Inr context)), (trace tr (TraceCommand c source) u)\<lparr>history := history u @ [Resolved c]\<rparr>)"
  using assms by (simp add: dispatch_begin_def Let_def)






text \<open>
  C2 (amended). Calls of \<open>dispatch\<close> on one unit are not queued. Two commands dispatched
  one after the other are processed in the order in which their awaited contexts settle
  (\<open>i = 0\<close>: the first dispatched settles first; \<open>i = 1\<close>: the second does). What is
  processed first is decided on the state before, evolved and published as one block; the
  other is then decided on the state the first block left, and its block follows. The two
  blocks are never interleaved.
\<close>

theorem dispatches_run_in_settle_order:
  assumes "validate config c1 = None" and "validate config c2 = None"
    and "resolveContext config c1 = Fulfils x1" and "resolveContext config c2 = Fulfils x2"
    and "i < 2"
    and "(ca, xa, cb, xb) = (if i = 0 then (c1, x1, c2, x2) else (c2, x2, c1, x1))"
    and "decide config ca (state_value u) xa = Inr esa" and "fold_evolve config (state_value u) esa = Inr sa"
    and "decide config cb sa xb = Inr esb" and "fold_evolve config sa esb = Inr sb"
    and "\<forall>e\<in>set (esa @ esb). \<forall>s w. fst (deliver ls (Event e) s w) = None"
  shows "snd (run config tr ls [Call c1, Call c2, Settle i, Settle 0] u) = [] \<and>
    state_value (fst (run config tr ls [Call c1, Call c2, Settle i, Settle 0] u)) = sb \<and>
    history (fst (run config tr ls [Call c1, Call c2, Settle i, Settle 0] u)) =
      history u @ [Resolved c1, Resolved c2] @ block ca esa @ block cb esb"
proof -
  let ?u1 = "(trace tr (TraceCommand c1 ''user'') u)\<lparr>history := history u @ [Resolved c1]\<rparr>"
  let ?u2 = "(trace tr (TraceCommand c2 ''user'') ?u1)\<lparr>history := history ?u1 @ [Resolved c2]\<rparr>"
  let ?ka = "Awaiting ca (Inr xa)"
  let ?kb = "Awaiting cb (Inr xb)"
  let ?u3 = "dispatch_resume config tr ls ?ka ?u2"
  let ?u4 = "dispatch_resume config tr ls ?kb ?u3"
  have qa: "\<forall>e\<in>set esa. \<forall>s w. fst (deliver ls (Event e) s w) = None"
    and qb: "\<forall>e\<in>set esb. \<forall>s w. fst (deliver ls (Event e) s w) = None" using assms(11) by auto
  have b1: "dispatch_begin config tr ls c1 ''user'' u = (Some (Awaiting c1 (Inr x1)), ?u1)"
    by (rule dispatch_begin_valid[OF assms(1,3)])
  have b2: "dispatch_begin config tr ls c2 ''user'' ?u1 = (Some (Awaiting c2 (Inr x2)), ?u2)"
    using dispatch_begin_valid[OF assms(2,4), of tr ls "''user''" ?u1] by (simp add: trace_def)
  have da: "decide config ca (state_value ?u2) xa = Inr esa"
    and fa: "fold_evolve config (state_value ?u2) esa = Inr sa" using assms(7,8) by simp_all
  from dispatch_resume_ok[OF da fa qa, of tr]
  have s3: "state_value ?u3 = sa" and h3: "history ?u3 = history ?u2 @ block ca esa" by simp_all
  have db: "decide config cb (state_value ?u3) xb = Inr esb"
    and fb: "fold_evolve config (state_value ?u3) esb = Inr sb" using assms(9,10) s3 by simp_all
  from dispatch_resume_ok[OF db fb qb, of tr]
  have s4: "state_value ?u4 = sb" and h4: "history ?u4 = history ?u3 @ block cb esb" by simp_all
  have "run config tr ls [Call c1, Call c2, Settle i, Settle 0] u = (?u4, [])"
  proof (cases "i = 0")
    case True
    with assms(6) have "ca = c1" "xa = x1" "cb = c2" "xb = x2" by simp_all
    with True b1 b2 show ?thesis by (simp add: run_def)
  next
    case False
    with assms(5) have i: "i = 1" by simp
    with assms(6) have "ca = c2" "xa = x2" "cb = c1" "xb = x1" by simp_all
    with i b1 b2 show ?thesis by (simp add: run_def)
  qed
  with s4 h4 h3 show ?thesis by simp
qed

theorem dispatches_run_in_settle_order_witness:
  "snd (run log_config False [recorder] [Call (add_command 1), Call (add_command 5), Settle 1, Settle 0] fresh) = [] \<and>
   state_value (fst (run log_config False [recorder] [Call (add_command 1), Call (add_command 5), Settle 1, Settle 0] fresh)) =
     [5, 6, 1, 2] \<and>
   history (fst (run log_config False [recorder] [Call (add_command 1), Call (add_command 5), Settle 1, Settle 0] fresh)) =
     history fresh @ [Resolved (add_command 1), Resolved (add_command 5)] @
       block (add_command 5) [5, 6] @ block (add_command 1) [1, 2]"
proof -
  have v: "validate log_config (add_command 1) = None" "validate log_config (add_command 5) = None"
    by (simp_all add: log_config_def add_command_def validate_def)
  have r: "resolveContext log_config (add_command 1) = Fulfils ()"
     "resolveContext log_config (add_command 5) = Fulfils ()"
    by (simp_all add: log_config_def add_command_def)
  have o: "(add_command 5, (), add_command 1, ()) =
     (if (1::nat) = 0 then (add_command 1, (), add_command 5, ()) else (add_command 5, (), add_command 1, ()))"
    by simp
  have d: "decide log_config (add_command 5) (state_value fresh) () = Inr [5, 6]"
     "decide log_config (add_command 1) [5, 6] () = Inr [1, 2]"
    by (simp_all add: log_config_def add_command_def)
  have f: "fold_evolve log_config (state_value fresh) [5, 6] = Inr [5, 6]"
     "fold_evolve log_config [5, 6] [1, 2] = Inr [5, 6, 1, 2]"
    by (simp_all add: log_config_def fresh_def createDecider_def)
  have q: "\<forall>e\<in>set ([5, 6] @ [1, 2]). \<forall>s w. fst (deliver [recorder] (Event e) s w) = None"
    by (simp add: recorder_def)
  from dispatches_run_in_settle_order[OF v r _ o d(1) f(1) d(2) f(2) q, of False]
  show ?thesis by simp
qed

text \<open>
  C2 as stated fails: the second command is dispatched while the first awaits its
  context; its context settles first, and it is decided, evolved and published before the
  first command is decided.
\<close>

theorem second_command_overtakes_first:
  "history (fst (run log_config False [] [Call (add_command 1), Call (add_command 5), Settle 1, Settle 0] fresh)) =
     [Resolved (add_command 1), Resolved (add_command 5),
      Decided (add_command 5), Evolved 5, Emitted (Event 5), Evolved 6, Emitted (Event 6),
      Decided (add_command 1), Evolved 1, Emitted (Event 1), Evolved 2, Emitted (Event 2)] \<and>
   state_value (fst (run log_config False [] [Call (add_command 1), Call (add_command 5), Settle 1, Settle 0] fresh)) =
     [5, 6, 1, 2]"
  by code_simp










section \<open>Properties of the reaction unit and the read model builder\<close>









end
